theory Spec2Isabelle
  imports Main
begin

section \<open>Data model\<close>

text \<open>
  A square of the board holds \<^verbatim>\<open>null\<close>, \<^verbatim>\<open>'X'\<close> or \<^verbatim>\<open>'O'\<close>. Reading a
  JavaScript array outside its bounds gives \<^verbatim>\<open>undefined\<close>, so that value is part of
  the model too.
\<close>

datatype cell = Null | Undefined | MarkX | MarkO

text \<open>JavaScript truthiness of a square: \<^verbatim>\<open>null\<close> and \<^verbatim>\<open>undefined\<close> are falsy, the
  two non-empty strings are truthy.\<close>

fun truthy :: "cell \<Rightarrow> bool" where
  "truthy Null = False"
| "truthy Undefined = False"
| "truthy MarkX = True"
| "truthy MarkO = True"

text \<open>\<^verbatim>\<open>squares[i]\<close> as a read: out of range it is \<^verbatim>\<open>undefined\<close>.\<close>

definition js_get :: "cell list \<Rightarrow> nat \<Rightarrow> cell" where
  "js_get xs i = (if i < length xs then xs ! i else Undefined)"

text \<open>\<^verbatim>\<open>squares[i] = v\<close> as a write: out of range the array grows, and the holes in
  between read as \<^verbatim>\<open>undefined\<close>.\<close>

definition js_set :: "cell list \<Rightarrow> nat \<Rightarrow> cell \<Rightarrow> cell list" where
  "js_set xs i v =
     (if i < length xs then xs[i := v]
      else xs @ replicate (i - length xs) Undefined @ [v])"

section \<open>calculateWinner\<close>

text \<open>The table \<^verbatim>\<open>lines\<close> of \<^verbatim>\<open>calculateWinner\<close>; it is the same in both source
  files.\<close>

definition lines :: "(nat \<times> nat \<times> nat) list" where
  "lines =
     [(0, 1, 2),
      (3, 4, 5),
      (6, 7, 8),
      (0, 3, 6),
      (1, 4, 7),
      (2, 5, 8),
      (0, 4, 8),
      (2, 4, 6)]"

text \<open>The \<^verbatim>\<open>for\<close> loop over the table: the first line that passes the test returns,
  and falling through the loop returns \<^verbatim>\<open>null\<close>.\<close>

fun calculateWinner_loop :: "(nat \<times> nat \<times> nat) list \<Rightarrow> cell list \<Rightarrow> cell" where
  "calculateWinner_loop [] squares = Null"
| "calculateWinner_loop ((a, b, c) # rest) squares =
     (if truthy (js_get squares a) \<and> js_get squares a = js_get squares b
         \<and> js_get squares a = js_get squares c
      then js_get squares a
      else calculateWinner_loop rest squares)"

definition calculateWinner :: "cell list \<Rightarrow> cell" where
  "calculateWinner squares = calculateWinner_loop lines squares"

text \<open>The specification's reading of a complete line: its three cells are equal and
  not empty.\<close>

definition line_complete :: "cell list \<Rightarrow> nat \<times> nat \<times> nat \<Rightarrow> bool" where
  "line_complete squares l =
     (case l of (a, b, c) \<Rightarrow>
        squares ! a \<noteq> Null \<and> squares ! a = squares ! b \<and> squares ! a = squares ! c)"

text \<open>A board snapshot of the specification: nine cells, each empty or a mark.\<close>

definition board_ok :: "cell list \<Rightarrow> bool" where
  "board_ok squares = (length squares = 9 \<and> set squares \<subseteq> {Null, MarkX, MarkO})"

section \<open>Game: the component with history\<close>

text \<open>An element of \<^verbatim>\<open>history\<close> is an object with the one field \<^verbatim>\<open>squares\<close>.\<close>

record entry =
  squares :: "cell list"

text \<open>\<^verbatim>\<open>this.state\<close> of \<^verbatim>\<open>Game\<close>.\<close>

record game_state =
  history :: "entry list"
  stepNumber :: nat
  xIsNext :: bool

text \<open>Reading a property of \<^verbatim>\<open>undefined\<close> throws.\<close>

datatype js_error = TypeError

text \<open>The constructor: one snapshot, \<^verbatim>\<open>Array(9).fill(null)\<close>.\<close>

definition Game_init :: game_state where
  "Game_init =
     \<lparr>history = [\<lparr>squares = replicate 9 Null\<rparr>], stepNumber = 0, xIsNext = True\<rparr>"

text \<open>\<^verbatim>\<open>this.state.xIsNext ? 'X' : 'O'\<close>, the mark of the player to move.\<close>

definition activePlayer :: "game_state \<Rightarrow> cell" where
  "activePlayer s = (if xIsNext s then MarkX else MarkO)"

text \<open>
  \<^verbatim>\<open>Game.handleClick(i)\<close>. \<^verbatim>\<open>slice(0, stepNumber + 1)\<close> is \<open>take\<close>; on an empty
  slice \<^verbatim>\<open>history[history.length - 1]\<close> is \<^verbatim>\<open>undefined\<close> and reading its
  \<^verbatim>\<open>squares\<close> throws. The early \<^verbatim>\<open>return\<close> leaves the state as it is;
  \<^verbatim>\<open>setState\<close> replaces the three fields.
\<close>

definition Game_handleClick :: "game_state \<Rightarrow> nat \<Rightarrow> js_error + game_state" where
  "Game_handleClick s i =
     (let hist = take (stepNumber s + 1) (history s) in
      if hist = [] then Inl TypeError
      else
        let current = hist ! (length hist - 1);
            sq = squares current
        in
          if truthy (calculateWinner sq) \<or> truthy (js_get sq i) then Inr s
          else
            let sq' = js_set sq i (activePlayer s) in
              Inr (s\<lparr>history := hist @ [\<lparr>squares = sq'\<rparr>],
                     stepNumber := length hist,
                     xIsNext := \<not> xIsNext s\<rparr>))"

text \<open>\<^verbatim>\<open>Game.jumpTo(step)\<close>: \<^verbatim>\<open>setState\<close> with two fields, \<^verbatim>\<open>history\<close> is not
  named.\<close>

definition jumpTo :: "game_state \<Rightarrow> nat \<Rightarrow> game_state" where
  "jumpTo s step = s\<lparr>stepNumber := step, xIsNext := (step mod 2 = 0)\<rparr>"

text \<open>The states the user interface can reach: squares are clicked with an index in
  0..8, and a jump goes to a step of the move list, which \<^verbatim>\<open>render\<close> builds from the
  indices of \<^verbatim>\<open>history\<close>.\<close>

inductive reachable :: "game_state \<Rightarrow> bool" where
  reach_init: "reachable Game_init"
| reach_click: "reachable s \<Longrightarrow> i < 9 \<Longrightarrow> Game_handleClick s i = Inr s' \<Longrightarrow> reachable s'"
| reach_jump: "reachable s \<Longrightarrow> step < length (history s) \<Longrightarrow> reachable (jumpTo s step)"

text \<open>The number of occupied cells of a snapshot.\<close>

definition occupied :: "cell list \<Rightarrow> nat" where
  "occupied sq = length (filter (\<lambda>c. c \<noteq> Null) sq)"

text \<open>A run of clicks with no jump in between; an exception ends the run.\<close>

fun Game_clicks :: "game_state \<Rightarrow> nat list \<Rightarrow> js_error + game_state" where
  "Game_clicks s [] = Inr s"
| "Game_clicks s (i # rest) =
     (case Game_handleClick s i of
        Inl e \<Rightarrow> Inl e
      | Inr s' \<Rightarrow> Game_clicks s' rest)"

section \<open>Board: the component without history\<close>

text \<open>\<^verbatim>\<open>this.state\<close> of \<^verbatim>\<open>Board\<close> in \<^verbatim>\<open>src/index.js\<close>.\<close>

record board_state =
  board_squares :: "cell list"
  board_xIsNext :: bool

definition Board_init :: board_state where
  "Board_init = \<lparr>board_squares = replicate 9 Null, board_xIsNext = True\<rparr>"

text \<open>\<^verbatim>\<open>Board.handleClick(i)\<close>; nothing in it can throw.\<close>

definition Board_handleClick :: "board_state \<Rightarrow> nat \<Rightarrow> board_state" where
  "Board_handleClick s i =
     (let sq = board_squares s in
      if truthy (calculateWinner sq) \<or> truthy (js_get sq i) then s
      else
        let sq' = js_set sq i (if board_xIsNext s then MarkX else MarkO) in
          s\<lparr>board_squares := sq', board_xIsNext := \<not> board_xIsNext s\<rparr>)"

fun Board_clicks :: "board_state \<Rightarrow> nat list \<Rightarrow> board_state" where
  "Board_clicks s [] = s"
| "Board_clicks s (i # rest) = Board_clicks (Board_handleClick s i) rest"

section \<open>Game with the identity of the history elements\<close>

text \<open>
  Every element of \<^verbatim>\<open>history\<close> is an object of its own: two of them can hold the
  same squares and still be different objects. To tell them apart, this second
  embedding of \<^verbatim>\<open>Game\<close> keeps with each element the address at which its object was
  allocated.
\<close>

type_synonym addr = nat

text \<open>\<^verbatim>\<open>this.state\<close> of \<^verbatim>\<open>Game\<close> with the address of every history element, and
  \<open>heap_next\<close>, the address that the next allocation of such an object gets.\<close>

record heap_state =
  heap_history :: "(addr \<times> entry) list"
  heap_stepNumber :: nat
  heap_xIsNext :: bool
  heap_next :: addr

text \<open>The constructor allocates the first element.\<close>

definition Heap_init :: heap_state where
  "Heap_init =
     \<lparr>heap_history = [(0, \<lparr>squares = replicate 9 Null\<rparr>)], heap_stepNumber = 0,
      heap_xIsNext = True, heap_next = 1\<rparr>"

text \<open>
  \<^verbatim>\<open>Game.handleClick(i)\<close> again, line by line as above. The object literal
  \<^verbatim>\<open>{squares: squares}\<close> in the argument of \<^verbatim>\<open>concat\<close> is a new object: it gets the
  address \<open>heap_next\<close>, which then moves on. \<^verbatim>\<open>slice\<close> copies the references to the
  elements it keeps, so these keep their addresses. The early \<^verbatim>\<open>return\<close> allocates no
  history element.
\<close>

definition Heap_handleClick :: "heap_state \<Rightarrow> nat \<Rightarrow> js_error + heap_state" where
  "Heap_handleClick t i =
     (let hist = take (heap_stepNumber t + 1) (heap_history t) in
      if hist = [] then Inl TypeError
      else
        let current = snd (hist ! (length hist - 1));
            sq = squares current
        in
          if truthy (calculateWinner sq) \<or> truthy (js_get sq i) then Inr t
          else
            let sq' = js_set sq i (if heap_xIsNext t then MarkX else MarkO) in
              Inr (t\<lparr>heap_history := hist @ [(heap_next t, \<lparr>squares = sq'\<rparr>)],
                     heap_stepNumber := length hist,
                     heap_xIsNext := \<not> heap_xIsNext t,
                     heap_next := heap_next t + 1\<rparr>))"

text \<open>\<^verbatim>\<open>Game.jumpTo(step)\<close> allocates nothing.\<close>

definition Heap_jumpTo :: "heap_state \<Rightarrow> nat \<Rightarrow> heap_state" where
  "Heap_jumpTo t step = t\<lparr>heap_stepNumber := step, heap_xIsNext := (step mod 2 = 0)\<rparr>"

text \<open>The reachable states, as for \<open>reachable\<close>.\<close>

inductive heap_reachable :: "heap_state \<Rightarrow> bool" where
  heap_init: "heap_reachable Heap_init"
| heap_click:
    "heap_reachable t \<Longrightarrow> i < 9 \<Longrightarrow> Heap_handleClick t i = Inr t' \<Longrightarrow> heap_reachable t'"
| heap_jump:
    "heap_reachable t \<Longrightarrow> step < length (heap_history t) \<Longrightarrow> heap_reachable (Heap_jumpTo t step)"

fun Heap_clicks :: "heap_state \<Rightarrow> nat list \<Rightarrow> js_error + heap_state" where
  "Heap_clicks t [] = Inr t"
| "Heap_clicks t (i # rest) =
     (case Heap_handleClick t i of
        Inl e \<Rightarrow> Inl e
      | Inr t' \<Rightarrow> Heap_clicks t' rest)"

text \<open>Dropping the addresses gives the state of the first embedding.\<close>

definition forget :: "heap_state \<Rightarrow> game_state" where
  "forget t =
     \<lparr>history = map snd (heap_history t), stepNumber = heap_stepNumber t,
      xIsNext = heap_xIsNext t\<rparr>"

text \<open>The addresses of the history elements, in order.\<close>

definition addrs :: "heap_state \<Rightarrow> addr list" where
  "addrs t = map fst (heap_history t)"

text \<open>No address occurs twice in the history, and each was handed out before.\<close>

definition heap_ok :: "heap_state \<Rightarrow> bool" where
  "heap_ok t = (distinct (addrs t) \<and> (\<forall>a \<in> set (addrs t). a < heap_next t))"

section \<open>Predicates used in the statements\<close>

text \<open>The test in the loop body of \<^verbatim>\<open>calculateWinner\<close>, as a predicate on a line.\<close>

definition line_test :: "cell list \<Rightarrow> nat \<times> nat \<times> nat \<Rightarrow> bool" where
  "line_test sq l =
     (case l of (a, b, c) \<Rightarrow>
        truthy (js_get sq a) \<and> js_get sq a = js_get sq b
        \<and> js_get sq a = js_get sq c)"

text \<open>The state that the \<^verbatim>\<open>setState\<close> call of \<^verbatim>\<open>Game.handleClick\<close> produces when the
  pointer addresses a snapshot.\<close>

definition accepted :: "game_state \<Rightarrow> nat \<Rightarrow> game_state" where
  "accepted s i =
     s\<lparr>history := take (stepNumber s + 1) (history s)
          @ [\<lparr>squares = js_set (squares (history s ! stepNumber s)) i (activePlayer s)\<rparr>],
       stepNumber := stepNumber s + 1,
       xIsNext := \<not> xIsNext s\<rparr>"

text \<open>Well-formed states: the history is not empty, the pointer addresses one of its
  snapshots, and every snapshot is a board.\<close>

definition state_ok :: "game_state \<Rightarrow> bool" where
  "state_ok s =
     (history s \<noteq> [] \<and> stepNumber s < length (history s)
      \<and> (\<forall>e \<in> set (history s). board_ok (squares e)))"

text \<open>The history starts with the empty board, and the snapshot at index \<open>k\<close> has
  \<open>k\<close> occupied cells.\<close>

definition count_ok :: "game_state \<Rightarrow> bool" where
  "count_ok s =
     (squares (history s ! 0) = replicate 9 Null
      \<and> (\<forall>k < length (history s). occupied (squares (history s ! k)) = k))"

text \<open>What the two components show agrees: \<^verbatim>\<open>Game\<close> is at the end of its history, and
  the snapshot there and the turn flag are those of \<^verbatim>\<open>Board\<close>.\<close>

definition same_view :: "game_state \<Rightarrow> board_state \<Rightarrow> bool" where
  "same_view g b =
     (stepNumber g + 1 = length (history g)
      \<and> squares (history g ! stepNumber g) = board_squares b
      \<and> xIsNext g = board_xIsNext b)"

section \<open>Properties of calculateWinner\<close>

lemma loop_step:
  "calculateWinner_loop (l # ls) sq =
     (if line_test sq l then js_get sq (fst l)
      else calculateWinner_loop ls sq)"
  by (cases l) (auto simp: line_test_def)

lemma loop_none:
  "(\<And>k. k < length ls \<Longrightarrow> \<not> line_test sq (ls ! k)) \<Longrightarrow>
   calculateWinner_loop ls sq = Null"
proof (induction ls)
  case Nil
  show ?case by simp
next
  case (Cons l ls)
  have "\<not> line_test sq ((l # ls) ! 0)" using Cons.prems [of 0] by simp
  hence nt: "\<not> line_test sq l" by simp
  have "\<And>k. k < length ls \<Longrightarrow> \<not> line_test sq (ls ! k)"
  proof -
    fix k assume "k < length ls"
    hence "\<not> line_test sq ((l # ls) ! Suc k)" using Cons.prems [of "Suc k"] by simp
    thus "\<not> line_test sq (ls ! k)" by simp
  qed
  hence "calculateWinner_loop ls sq = Null" by (rule Cons.IH)
  thus ?case using nt by (simp only: loop_step if_False)
qed

lemma loop_first:
  "k < length ls \<Longrightarrow> line_test sq (ls ! k) \<Longrightarrow>
   (\<And>j. j < k \<Longrightarrow> \<not> line_test sq (ls ! j)) \<Longrightarrow>
   calculateWinner_loop ls sq = js_get sq (fst (ls ! k))"
proof (induction ls arbitrary: k)
  case Nil
  thus ?case by simp
next
  case (Cons l ls)
  show ?case
  proof (cases k)
    case 0
    with Cons.prems(2) have "line_test sq l" by simp
    thus ?thesis using 0 by (simp only: loop_step if_True nth_Cons_0)
  next
    case (Suc k')
    have "\<not> line_test sq ((l # ls) ! 0)" using Cons.prems(3) [of 0] Suc by simp
    hence nt: "\<not> line_test sq l" by simp
    have k': "k' < length ls" using Cons.prems(1) Suc by simp
    have t: "line_test sq (ls ! k')" using Cons.prems(2) Suc by simp
    have "\<And>j. j < k' \<Longrightarrow> \<not> line_test sq (ls ! j)"
    proof -
      fix j assume "j < k'"
      hence "\<not> line_test sq ((l # ls) ! Suc j)"
        using Cons.prems(3) [of "Suc j"] Suc by simp
      thus "\<not> line_test sq (ls ! j)" by simp
    qed
    with k' t have "calculateWinner_loop ls sq = js_get sq (fst (ls ! k'))"
      by (rule Cons.IH)
    thus ?thesis using nt Suc by (simp only: loop_step if_False nth_Cons_Suc)
  qed
qed

lemma lines_in_range:
  "k < length lines \<Longrightarrow> lines ! k = (a, b, c) \<Longrightarrow> a < 9 \<and> b < 9 \<and> c < 9"
  by (auto simp: lines_def nth_Cons split: nat.splits)

lemma board_ok_cell:
  assumes "board_ok sq" "i < 9"
  shows "sq ! i \<in> {Null, MarkX, MarkO}"
proof -
  have "i < length sq" using assms by (simp add: board_ok_def)
  hence "sq ! i \<in> set sq" by (rule nth_mem)
  moreover have "set sq \<subseteq> {Null, MarkX, MarkO}" using assms(1) by (simp add: board_ok_def)
  ultimately show ?thesis by (rule subsetD [rotated])
qed

lemma board_ok_truthy:
  "board_ok sq \<Longrightarrow> i < 9 \<Longrightarrow> truthy (sq ! i) = (sq ! i \<noteq> Null)"
  using board_ok_cell [of sq i] by (cases "sq ! i") auto

lemma line_test_complete:
  assumes "board_ok sq" "k < length lines"
  shows "line_test sq (lines ! k) = line_complete sq (lines ! k)"
proof -
  obtain a b c where l: "lines ! k = (a, b, c)" by (cases "lines ! k") auto
  from lines_in_range [OF assms(2) l] have r: "a < 9" "b < 9" "c < 9" by auto
  have len: "length sq = 9" using assms(1) by (simp add: board_ok_def)
  show ?thesis
    using r len board_ok_truthy [OF assms(1) r(1)]
    by (simp add: l line_test_def line_complete_def js_get_def)
qed

text \<open>
  C1. On every board snapshot (nine cells, each empty, X or O), \<^verbatim>\<open>calculateWinner\<close>
  goes through the eight triples in the order [0,1,2], [3,4,5], [6,7,8], [0,3,6],
  [1,4,7], [2,5,8], [0,4,8], [2,4,6]. If no triple is complete the result is
  \<^verbatim>\<open>null\<close>. Otherwise the result is the mark on the first complete triple of that
  order, whatever later triples are complete as well.
\<close>

theorem calculateWinner_first_complete_line:
  assumes "board_ok sq"
  shows "lines = [(0, 1, 2), (3, 4, 5), (6, 7, 8), (0, 3, 6), (1, 4, 7), (2, 5, 8),
                  (0, 4, 8), (2, 4, 6)]
    \<and> ((\<forall>k < length lines. \<not> line_complete sq (lines ! k))
          \<longrightarrow> calculateWinner sq = Null)
    \<and> (\<forall>k < length lines.
          line_complete sq (lines ! k)
          \<and> (\<forall>j < k. \<not> line_complete sq (lines ! j))
          \<longrightarrow> calculateWinner sq = sq ! fst (lines ! k)
              \<and> calculateWinner sq \<in> {MarkX, MarkO})"
proof -
  have tbl: "lines = [(0, 1, 2), (3, 4, 5), (6, 7, 8), (0, 3, 6), (1, 4, 7), (2, 5, 8),
                      (0, 4, 8), (2, 4, 6)]"
    by (simp add: lines_def)
  have none: "calculateWinner sq = Null"
    if n: "\<forall>k < length lines. \<not> line_complete sq (lines ! k)"
  proof -
    have "\<And>k. k < length lines \<Longrightarrow> \<not> line_test sq (lines ! k)"
      using n line_test_complete [OF assms] by simp
    thus ?thesis unfolding calculateWinner_def by (rule loop_none)
  qed
  have first: "calculateWinner sq = sq ! fst (lines ! k)
               \<and> calculateWinner sq \<in> {MarkX, MarkO}"
    if k: "k < length lines"
      and h: "line_complete sq (lines ! k)
              \<and> (\<forall>j < k. \<not> line_complete sq (lines ! j))" for k
  proof -
    have t: "line_test sq (lines ! k)"
      using h k line_test_complete [OF assms] by simp
    have before: "\<And>j. j < k \<Longrightarrow> \<not> line_test sq (lines ! j)"
    proof -
      fix j assume j: "j < k"
      hence "j < length lines" using k by simp
      thus "\<not> line_test sq (lines ! j)"
        using h j line_test_complete [OF assms] by simp
    qed
    have res: "calculateWinner sq = js_get sq (fst (lines ! k))"
      unfolding calculateWinner_def using k t before by (rule loop_first)
    obtain a b c where l: "lines ! k = (a, b, c)" by (cases "lines ! k") auto
    from lines_in_range [OF k l] have a: "a < 9" by simp
    have len: "length sq = 9" using assms by (simp add: board_ok_def)
    have eq: "calculateWinner sq = sq ! a"
      using res a len by (simp add: l js_get_def)
    have "line_complete sq (a, b, c)" using h by (simp only: l)
    hence "sq ! a \<noteq> Null" unfolding line_complete_def by blast
    moreover have "sq ! a \<in> {Null, MarkX, MarkO}"
      using assms a by (rule board_ok_cell)
    ultimately have "sq ! a \<in> {MarkX, MarkO}" by auto
    with eq show ?thesis by (simp add: l)
  qed
  from tbl none first show ?thesis by blast
qed

text \<open>A board with the first two rows complete: the first row, X, decides.\<close>

theorem calculateWinner_first_complete_line_witness:
  "board_ok [MarkX, MarkX, MarkX, MarkO, MarkO, MarkO, Null, Null, Null]
   \<and> line_complete [MarkX, MarkX, MarkX, MarkO, MarkO, MarkO, Null, Null, Null] (lines ! 0)
   \<and> line_complete [MarkX, MarkX, MarkX, MarkO, MarkO, MarkO, Null, Null, Null] (lines ! 1)
   \<and> calculateWinner [MarkX, MarkX, MarkX, MarkO, MarkO, MarkO, Null, Null, Null] = MarkX"
proof -
  let ?b = "[MarkX, MarkX, MarkX, MarkO, MarkO, MarkO, Null, Null, Null]"
  have ok: "board_ok ?b" by (simp add: board_ok_def)
  have c0: "line_complete ?b (lines ! 0)" by (simp add: line_complete_def lines_def)
  have c1: "line_complete ?b (lines ! 1)" by (simp add: line_complete_def lines_def)
  have "\<forall>k < length lines.
          line_complete ?b (lines ! k) \<and> (\<forall>j < k. \<not> line_complete ?b (lines ! j))
          \<longrightarrow> calculateWinner ?b = ?b ! fst (lines ! k)
              \<and> calculateWinner ?b \<in> {MarkX, MarkO}"
    using calculateWinner_first_complete_line [OF ok] by blast
  moreover have "(0::nat) < length lines" by (simp add: lines_def)
  moreover have "\<forall>j < (0::nat). \<not> line_complete ?b (lines ! j)" by simp
  ultimately have "calculateWinner ?b = ?b ! fst (lines ! 0)" using c0 by blast
  hence "calculateWinner ?b = MarkX" by (simp add: lines_def)
  with ok c0 c1 show ?thesis by blast
qed

section \<open>Properties of handleClick and jumpTo\<close>

lemma loop_truthy_or_null:
  "calculateWinner_loop ls sq = Null \<or> truthy (calculateWinner_loop ls sq)"
  by (induction ls) (auto simp: loop_step line_test_def split: prod.splits)

lemma calculateWinner_truthy:
  "truthy (calculateWinner sq) = (calculateWinner sq \<noteq> Null)"
  using loop_truthy_or_null [of lines sq] by (auto simp: calculateWinner_def)

lemma truthy_mark: "truthy c = (c \<in> {MarkX, MarkO})"
  by (cases c) auto

lemma take_current:
  assumes "p < length h"
  shows "length (take (p + 1) h) = p + 1" and "take (p + 1) h \<noteq> []"
    and "take (p + 1) h ! (length (take (p + 1) h) - 1) = h ! p"
proof -
  show l: "length (take (p + 1) h) = p + 1" using assms by simp
  thus "take (p + 1) h \<noteq> []" by auto
  have "take (p + 1) h ! p = h ! p" by simp
  with l show "take (p + 1) h ! (length (take (p + 1) h) - 1) = h ! p" by simp
qed

lemma handleClick_reject:
  assumes "stepNumber s < length (history s)"
    and "truthy (calculateWinner (squares (history s ! stepNumber s)))
         \<or> truthy (js_get (squares (history s ! stepNumber s)) i)"
  shows "Game_handleClick s i = Inr s"
  using assms take_current [OF assms(1)]
  by (simp add: Game_handleClick_def Let_def)

lemma handleClick_accept:
  assumes "stepNumber s < length (history s)"
    and "\<not> truthy (calculateWinner (squares (history s ! stepNumber s)))"
    and "\<not> truthy (js_get (squares (history s ! stepNumber s)) i)"
  shows "Game_handleClick s i = Inr (accepted s i)"
  using assms take_current [OF assms(1)]
  by (simp add: Game_handleClick_def Let_def accepted_def)

lemma handleClick_cases:
  assumes "stepNumber s < length (history s)" and "Game_handleClick s i = Inr s'"
  shows "s' = s
    \<or> (\<not> truthy (calculateWinner (squares (history s ! stepNumber s)))
       \<and> \<not> truthy (js_get (squares (history s ! stepNumber s)) i)
       \<and> s' = accepted s i)"
proof (cases "truthy (calculateWinner (squares (history s ! stepNumber s)))
         \<or> truthy (js_get (squares (history s ! stepNumber s)) i)")
  case True
  from handleClick_reject [OF assms(1) True] assms(2) show ?thesis by simp
next
  case False
  hence w: "\<not> truthy (calculateWinner (squares (history s ! stepNumber s)))"
    and c: "\<not> truthy (js_get (squares (history s ! stepNumber s)) i)" by auto
  from handleClick_accept [OF assms(1) w c] assms(2) w c show ?thesis by simp
qed

lemma Board_handleClick_reject:
  assumes "truthy (calculateWinner (board_squares b)) \<or> truthy (js_get (board_squares b) i)"
  shows "Board_handleClick b i = b"
  using assms by (simp add: Board_handleClick_def Let_def)

text \<open>
  C2. In a state whose pointer addresses a snapshot, a click on a square 0..8 does
  nothing when that snapshot has a winner or the square holds a mark: the call
  returns normally and history, step pointer and turn flag are what they were. The
  same holds for \<^verbatim>\<open>Board.handleClick\<close> of the variant without history.
\<close>

theorem rejected_click_is_noop:
  assumes "i < 9"
  shows "(stepNumber s < length (history s)
          \<and> (calculateWinner (squares (history s ! stepNumber s)) \<noteq> Null
             \<or> js_get (squares (history s ! stepNumber s)) i \<in> {MarkX, MarkO})
          \<longrightarrow> Game_handleClick s i = Inr s)
    \<and> (calculateWinner (board_squares b) \<noteq> Null
          \<or> js_get (board_squares b) i \<in> {MarkX, MarkO}
        \<longrightarrow> Board_handleClick b i = b)"
proof (intro conjI impI)
  let ?cur = "squares (history s ! stepNumber s)"
  assume h: "stepNumber s < length (history s)
             \<and> (calculateWinner ?cur \<noteq> Null \<or> js_get ?cur i \<in> {MarkX, MarkO})"
  hence "truthy (calculateWinner ?cur) \<or> truthy (js_get ?cur i)"
    using calculateWinner_truthy [of ?cur] truthy_mark [of "js_get ?cur i"] by blast
  with h show "Game_handleClick s i = Inr s" by (intro handleClick_reject) simp_all
next
  let ?cur = "board_squares b"
  assume "calculateWinner ?cur \<noteq> Null \<or> js_get ?cur i \<in> {MarkX, MarkO}"
  hence "truthy (calculateWinner ?cur) \<or> truthy (js_get ?cur i)"
    using calculateWinner_truthy [of ?cur] truthy_mark [of "js_get ?cur i"] by blast
  thus "Board_handleClick b i = b" by (rule Board_handleClick_reject)
qed

text \<open>After X has played square 0, a second click on square 0 changes nothing.\<close>

theorem rejected_click_is_noop_witness:
  "\<exists>s. Game_clicks Game_init [0] = Inr s
     \<and> stepNumber s < length (history s)
     \<and> js_get (squares (history s ! stepNumber s)) 0 = MarkX
     \<and> Game_handleClick s 0 = Inr s"
proof -
  let ?s = "\<lparr>history = [\<lparr>squares = replicate 9 Null\<rparr>,
                         \<lparr>squares = [MarkX, Null, Null, Null, Null, Null, Null, Null, Null]\<rparr>],
             stepNumber = 1, xIsNext = False\<rparr>"
  have run: "Game_clicks Game_init [0] = Inr ?s" by code_simp
  have p: "stepNumber ?s < length (history ?s)" by simp
  have m: "js_get (squares (history ?s ! stepNumber ?s)) 0 = MarkX" by (simp add: js_get_def)
  have "(0::nat) < 9" by simp
  from rejected_click_is_noop [OF this, of ?s] p m
  have "Game_handleClick ?s 0 = Inr ?s" by simp
  with run p m show ?thesis by blast
qed

text \<open>
  C3. In a state whose pointer addresses a nine-cell snapshot with no winner, a click
  on a free square 0..8 returns the state built as follows: the history is cut to
  pointer + 1 entries, a copy of the current snapshot with the mark of the player to
  move, X when \<^verbatim>\<open>xIsNext\<close> holds and O otherwise, at the clicked index is appended,
  and the pointer moves on by one (the turn flag flips).
\<close>

theorem accepted_click_appends_snapshot:
  assumes "stepNumber s < length (history s)" and "i < 9"
    and "length (squares (history s ! stepNumber s)) = 9"
    and "squares (history s ! stepNumber s) ! i \<notin> {MarkX, MarkO}"
    and "calculateWinner (squares (history s ! stepNumber s)) = Null"
  shows "Game_handleClick s i =
     Inr \<lparr>history = take (stepNumber s + 1) (history s)
                @ [\<lparr>squares = (squares (history s ! stepNumber s))
                                [i := (if xIsNext s then MarkX else MarkO)]\<rparr>],
          stepNumber = stepNumber s + 1,
          xIsNext = \<not> xIsNext s\<rparr>"
proof -
  let ?cur = "squares (history s ! stepNumber s)"
  let ?mark = "if xIsNext s then MarkX else MarkO"
  have g: "js_get ?cur i = ?cur ! i" using assms(2,3) by (simp add: js_get_def)
  have w: "\<not> truthy (calculateWinner ?cur)" using assms(5) by simp
  have c: "\<not> truthy (js_get ?cur i)" using assms(4) g by (auto simp: truthy_mark)
  have m: "activePlayer s = ?mark" by (simp add: activePlayer_def)
  have u: "js_set ?cur i (activePlayer s) = ?cur[i := ?mark]"
    using assms(2,3) by (simp add: js_set_def m)
  show ?thesis
    unfolding handleClick_accept [OF assms(1) w c] accepted_def u by simp
qed

text \<open>The second click of a game: X is on square 0, it is O's turn, and the click on
  square 4 puts an O there.\<close>

theorem accepted_click_appends_snapshot_witness:
  "\<exists>s. Game_clicks Game_init [0] = Inr s
     \<and> stepNumber s < length (history s) \<and> \<not> xIsNext s
     \<and> length (squares (history s ! stepNumber s)) = 9
     \<and> squares (history s ! stepNumber s) ! 4 = Null
     \<and> calculateWinner (squares (history s ! stepNumber s)) = Null
     \<and> Game_handleClick s 4 =
         Inr \<lparr>history =
                [\<lparr>squares = [Null, Null, Null, Null, Null, Null, Null, Null, Null]\<rparr>,
                 \<lparr>squares = [MarkX, Null, Null, Null, Null, Null, Null, Null, Null]\<rparr>,
                 \<lparr>squares = [MarkX, Null, Null, Null, MarkO, Null, Null, Null, Null]\<rparr>],
              stepNumber = 2, xIsNext = True\<rparr>"
proof -
  let ?s = "\<lparr>history =
        [\<lparr>squares = [Null, Null, Null, Null, Null, Null, Null, Null, Null]\<rparr>,
         \<lparr>squares = [MarkX, Null, Null, Null, Null, Null, Null, Null, Null]\<rparr>],
        stepNumber = 1, xIsNext = False\<rparr>"
  have run: "Game_clicks Game_init [0] = Inr ?s" by code_simp
  have p: "stepNumber ?s < length (history ?s)" by simp
  have t: "\<not> xIsNext ?s" by simp
  have l: "length (squares (history ?s ! stepNumber ?s)) = 9" by simp
  have f: "squares (history ?s ! stepNumber ?s) ! 4 = Null" by simp
  hence f': "squares (history ?s ! stepNumber ?s) ! 4 \<notin> {MarkX, MarkO}" by simp
  have cur: "squares (history ?s ! stepNumber ?s)
             = [MarkX, Null, Null, Null, Null, Null, Null, Null, Null]" by simp
  have w: "calculateWinner (squares (history ?s ! stepNumber ?s)) = Null"
    unfolding cur by code_simp
  have i: "(4::nat) < 9" by simp
  from accepted_click_appends_snapshot [OF p i l f' w]
  have "Game_handleClick ?s 4 =
         Inr \<lparr>history =
                [\<lparr>squares = [Null, Null, Null, Null, Null, Null, Null, Null, Null]\<rparr>,
                 \<lparr>squares = [MarkX, Null, Null, Null, Null, Null, Null, Null, Null]\<rparr>,
                 \<lparr>squares = [MarkX, Null, Null, Null, MarkO, Null, Null, Null, Null]\<rparr>],
              stepNumber = 2, xIsNext = True\<rparr>"
    by (simp add: numeral_eq_Suc)
  with run p t l f w show ?thesis by blast
qed

text \<open>
  C7. \<^verbatim>\<open>jumpTo(step)\<close> sets the step pointer to \<open>step\<close> and returns the history as
  it was: no snapshot is changed, removed, moved or added. This holds for every
  \<open>step\<close>, so also for those in 0..history.length-1.
\<close>

theorem jumpTo_moves_pointer_only:
  "stepNumber (jumpTo s step) = step \<and> history (jumpTo s step) = history s"
  by (simp add: jumpTo_def)

text \<open>A jump to step 0 in the initial state.\<close>

theorem jumpTo_moves_pointer_only_witness:
  "stepNumber (jumpTo Game_init 0) = 0 \<and> history (jumpTo Game_init 0) = history Game_init"
  using jumpTo_moves_pointer_only [of Game_init 0] by simp

text \<open>
  C8. Won and drawn positions are absorbing: when the current snapshot has a winner,
  or has nine cells that all hold a mark and no winner, a click on any square 0..8
  leaves the state as it is.
\<close>

theorem finished_game_rejects_clicks:
  assumes "stepNumber s < length (history s)" and "i < 9"
    and "calculateWinner (squares (history s ! stepNumber s)) \<noteq> Null
         \<or> (length (squares (history s ! stepNumber s)) = 9
            \<and> set (squares (history s ! stepNumber s)) \<subseteq> {MarkX, MarkO}
            \<and> calculateWinner (squares (history s ! stepNumber s)) = Null)"
  shows "Game_handleClick s i = Inr s"
proof (rule handleClick_reject [OF assms(1)])
  let ?cur = "squares (history s ! stepNumber s)"
  from assms(3) show "truthy (calculateWinner ?cur) \<or> truthy (js_get ?cur i)"
  proof
    assume "calculateWinner ?cur \<noteq> Null"
    thus ?thesis by (simp add: calculateWinner_truthy)
  next
    assume d: "length ?cur = 9 \<and> set ?cur \<subseteq> {MarkX, MarkO}
               \<and> calculateWinner ?cur = Null"
    hence "i < length ?cur" using assms(2) by simp
    hence "?cur ! i \<in> set ?cur" by (rule nth_mem)
    hence "?cur ! i \<in> {MarkX, MarkO}" using d by blast
    moreover have "js_get ?cur i = ?cur ! i" using d assms(2) by (simp add: js_get_def)
    ultimately show ?thesis by (auto simp: truthy_mark)
  qed
qed

text \<open>X wins on the top row with the clicks 0, 4, 1, 3, 2, and the click on 5 is
  refused; the clicks 0, 1, 2, 4, 3, 5, 7, 6, 8 fill the board with no winner, and
  the click on 4 is refused.\<close>

theorem finished_game_rejects_clicks_witness:
  "(\<exists>s. Game_clicks Game_init [0, 4, 1, 3, 2] = Inr s
      \<and> calculateWinner (squares (history s ! stepNumber s)) = MarkX
      \<and> Game_handleClick s 5 = Inr s)
   \<and> (\<exists>s. Game_clicks Game_init [0, 1, 2, 4, 3, 5, 7, 6, 8] = Inr s
      \<and> set (squares (history s ! stepNumber s)) \<subseteq> {MarkX, MarkO}
      \<and> calculateWinner (squares (history s ! stepNumber s)) = Null
      \<and> Game_handleClick s 4 = Inr s)"
proof (intro conjI)
  let ?s = "\<lparr>history =
        [\<lparr>squares = [Null, Null, Null, Null, Null, Null, Null, Null, Null]\<rparr>,
         \<lparr>squares = [MarkX, Null, Null, Null, Null, Null, Null, Null, Null]\<rparr>,
         \<lparr>squares = [MarkX, Null, Null, Null, MarkO, Null, Null, Null, Null]\<rparr>,
         \<lparr>squares = [MarkX, MarkX, Null, Null, MarkO, Null, Null, Null, Null]\<rparr>,
         \<lparr>squares = [MarkX, MarkX, Null, MarkO, MarkO, Null, Null, Null, Null]\<rparr>,
         \<lparr>squares = [MarkX, MarkX, MarkX, MarkO, MarkO, Null, Null, Null, Null]\<rparr>],
        stepNumber = 5, xIsNext = False\<rparr>"
  have run: "Game_clicks Game_init [0, 4, 1, 3, 2] = Inr ?s" by code_simp
  have p: "stepNumber ?s < length (history ?s)" by simp
  have cur: "squares (history ?s ! stepNumber ?s)
             = [MarkX, MarkX, MarkX, MarkO, MarkO, Null, Null, Null, Null]" by simp
  have w: "calculateWinner (squares (history ?s ! stepNumber ?s)) = MarkX"
    unfolding cur by code_simp
  have i: "(5::nat) < 9" by simp
  have "Game_handleClick ?s 5 = Inr ?s"
    by (rule finished_game_rejects_clicks [OF p i]) (simp only: w, simp)
  with run w show "\<exists>s. Game_clicks Game_init [0, 4, 1, 3, 2] = Inr s
      \<and> calculateWinner (squares (history s ! stepNumber s)) = MarkX
      \<and> Game_handleClick s 5 = Inr s" by blast
next
  let ?s = "\<lparr>history =
        [\<lparr>squares = [Null, Null, Null, Null, Null, Null, Null, Null, Null]\<rparr>,
         \<lparr>squares = [MarkX, Null, Null, Null, Null, Null, Null, Null, Null]\<rparr>,
         \<lparr>squares = [MarkX, MarkO, Null, Null, Null, Null, Null, Null, Null]\<rparr>,
         \<lparr>squares = [MarkX, MarkO, MarkX, Null, Null, Null, Null, Null, Null]\<rparr>,
         \<lparr>squares = [MarkX, MarkO, MarkX, Null, MarkO, Null, Null, Null, Null]\<rparr>,
         \<lparr>squares = [MarkX, MarkO, MarkX, MarkX, MarkO, Null, Null, Null, Null]\<rparr>,
         \<lparr>squares = [MarkX, MarkO, MarkX, MarkX, MarkO, MarkO, Null, Null, Null]\<rparr>,
         \<lparr>squares = [MarkX, MarkO, MarkX, MarkX, MarkO, MarkO, Null, MarkX, Null]\<rparr>,
         \<lparr>squares = [MarkX, MarkO, MarkX, MarkX, MarkO, MarkO, MarkO, MarkX, Null]\<rparr>,
         \<lparr>squares = [MarkX, MarkO, MarkX, MarkX, MarkO, MarkO, MarkO, MarkX, MarkX]\<rparr>],
        stepNumber = 9, xIsNext = False\<rparr>"
  have run: "Game_clicks Game_init [0, 1, 2, 4, 3, 5, 7, 6, 8] = Inr ?s" by code_simp
  have p: "stepNumber ?s < length (history ?s)" by simp
  have cur: "squares (history ?s ! stepNumber ?s)
             = [MarkX, MarkO, MarkX, MarkX, MarkO, MarkO, MarkO, MarkX, MarkX]" by simp
  have f: "set (squares (history ?s ! stepNumber ?s)) \<subseteq> {MarkX, MarkO}"
    unfolding cur by simp
  have l: "length (squares (history ?s ! stepNumber ?s)) = 9" unfolding cur by simp
  have w: "calculateWinner (squares (history ?s ! stepNumber ?s)) = Null"
    unfolding cur by code_simp
  have i: "(4::nat) < 9" by simp
  have "Game_handleClick ?s 4 = Inr ?s"
    using l f w by (intro finished_game_rejects_clicks [OF p i]) blast
  with run f w show "\<exists>s. Game_clicks Game_init [0, 1, 2, 4, 3, 5, 7, 6, 8] = Inr s
      \<and> set (squares (history s ! stepNumber s)) \<subseteq> {MarkX, MarkO}
      \<and> calculateWinner (squares (history s ! stepNumber s)) = Null
      \<and> Game_handleClick s 4 = Inr s" by blast
qed

section \<open>Invariants of the reachable states\<close>

lemma activePlayer_mark: "activePlayer s \<in> {MarkX, MarkO}"
  by (simp add: activePlayer_def)

lemma board_ok_update:
  assumes "board_ok sq" and "i < 9" and "v \<in> {MarkX, MarkO}"
  shows "board_ok (js_set sq i v)"
proof -
  have len: "length sq = 9" and sub: "set sq \<subseteq> {Null, MarkX, MarkO}"
    using assms(1) by (simp_all add: board_ok_def)
  have u: "js_set sq i v = sq[i := v]" using len assms(2) by (simp add: js_set_def)
  have "set (sq[i := v]) \<subseteq> insert v (set sq)" by (rule set_update_subset_insert)
  hence "set (sq[i := v]) \<subseteq> {Null, MarkX, MarkO}" using sub assms(3) by auto
  thus ?thesis using len by (simp add: u board_ok_def)
qed

lemma state_ok_init: "state_ok Game_init"
  by (simp add: state_ok_def Game_init_def board_ok_def)

lemma state_ok_accepted:
  assumes "state_ok s" and "i < 9"
  shows "state_ok (accepted s i)"
proof -
  let ?p = "stepNumber s" and ?h = "history s"
  have p: "?p < length ?h" and b: "\<forall>e \<in> set ?h. board_ok (squares e)"
    using assms(1) by (simp_all add: state_ok_def)
  have "?h ! ?p \<in> set ?h" using p by simp
  hence "board_ok (squares (?h ! ?p))" using b by blast
  hence new: "board_ok (js_set (squares (?h ! ?p)) i (activePlayer s))"
    using assms(2) activePlayer_mark by (rule board_ok_update)
  have old: "\<forall>e \<in> set (take (?p + 1) ?h). board_ok (squares e)"
    using b by (meson in_set_takeD)
  show ?thesis
    using p new old by (simp add: state_ok_def accepted_def)
qed

lemma state_ok_click:
  assumes "state_ok s" and "i < 9" and "Game_handleClick s i = Inr s'"
  shows "state_ok s'"
proof -
  have "stepNumber s < length (history s)" using assms(1) by (simp add: state_ok_def)
  from handleClick_cases [OF this assms(3)] show ?thesis
    using assms(1) state_ok_accepted [OF assms(1,2)] by auto
qed

lemma state_ok_jump:
  "state_ok s \<Longrightarrow> step < length (history s) \<Longrightarrow> state_ok (jumpTo s step)"
  by (simp add: state_ok_def jumpTo_def)

lemma reachable_state_ok: "reachable s \<Longrightarrow> state_ok s"
  by (induction rule: reachable.induct)
     (auto intro: state_ok_init state_ok_click state_ok_jump)

text \<open>A click in a reachable state returns: the \<^verbatim>\<open>TypeError\<close> branch is never taken, so
  the click rule of \<open>reachable\<close> leaves no click out.\<close>

lemma reachable_click_returns:
  assumes "reachable s"
  shows "\<exists>s'. Game_handleClick s i = Inr s'"
proof -
  have p: "stepNumber s < length (history s)"
    using reachable_state_ok [OF assms] by (simp add: state_ok_def)
  show ?thesis
  proof (cases "truthy (calculateWinner (squares (history s ! stepNumber s)))
           \<or> truthy (js_get (squares (history s ! stepNumber s)) i)")
    case True
    with p have "Game_handleClick s i = Inr s" by (rule handleClick_reject)
    thus ?thesis by blast
  next
    case False
    hence "Game_handleClick s i = Inr (accepted s i)"
      using p by (intro handleClick_accept) simp_all
    thus ?thesis by blast
  qed
qed

lemma reachable_clicks:
  "reachable s \<Longrightarrow> \<forall>i \<in> set clicks. i < 9 \<Longrightarrow> Game_clicks s clicks = Inr s' \<Longrightarrow>
   reachable s'"
proof (induction clicks arbitrary: s)
  case Nil
  thus ?case by simp
next
  case (Cons i clicks)
  from Cons.prems(3) obtain s1
    where s1: "Game_handleClick s i = Inr s1" and rest: "Game_clicks s1 clicks = Inr s'"
    by (auto split: sum.splits)
  have "i < 9" using Cons.prems(2) by simp
  with Cons.prems(1) have "reachable s1" using s1 by (rule reach_click)
  thus ?case using Cons.prems(2) rest by (intro Cons.IH) simp_all
qed

lemma reachable_parity: "reachable s \<Longrightarrow> xIsNext s = even (stepNumber s)"
proof (induction rule: reachable.induct)
  case reach_init
  show ?case by (simp add: Game_init_def)
next
  case (reach_click s i s')
  have "stepNumber s < length (history s)"
    using reachable_state_ok [OF reach_click.hyps(1)] by (simp add: state_ok_def)
  from handleClick_cases [OF this reach_click.hyps(3)] show ?case
    using reach_click.IH by (auto simp: accepted_def)
next
  case (reach_jump s step)
  show ?case by (simp add: jumpTo_def even_iff_mod_2_eq_zero)
qed

text \<open>
  C5. In every reachable state the turn flag agrees with the parity of the step
  pointer: \<^verbatim>\<open>xIsNext\<close> holds if and only if \<^verbatim>\<open>stepNumber\<close> is even, so the active
  player is X exactly at the even steps. Reachable states are the initial state and
  whatever clicks and jumps make of it, so the property holds initially and every
  click and every jump keeps it.
\<close>

theorem turn_flag_follows_parity:
  "reachable s \<Longrightarrow>
     xIsNext s = even (stepNumber s) \<and> (activePlayer s = MarkX) = even (stepNumber s)"
  using reachable_parity [of s] by (simp add: activePlayer_def)

text \<open>After the clicks 0, 1, 2 the pointer is at step 3 and it is O's turn.\<close>

theorem turn_flag_follows_parity_witness:
  "\<exists>s. Game_clicks Game_init [0, 1, 2] = Inr s \<and> reachable s
     \<and> stepNumber s = 3 \<and> \<not> xIsNext s \<and> activePlayer s = MarkO"
proof -
  let ?s = "\<lparr>history =
        [\<lparr>squares = [Null, Null, Null, Null, Null, Null, Null, Null, Null]\<rparr>,
         \<lparr>squares = [MarkX, Null, Null, Null, Null, Null, Null, Null, Null]\<rparr>,
         \<lparr>squares = [MarkX, MarkO, Null, Null, Null, Null, Null, Null, Null]\<rparr>,
         \<lparr>squares = [MarkX, MarkO, MarkX, Null, Null, Null, Null, Null, Null]\<rparr>],
        stepNumber = 3, xIsNext = False\<rparr>"
  have run: "Game_clicks Game_init [0, 1, 2] = Inr ?s" by code_simp
  have r: "reachable ?s"
    using reach_init _ run by (rule reachable_clicks) simp
  have p: "stepNumber ?s = 3" by simp
  from turn_flag_follows_parity [OF r]
  have "\<not> xIsNext ?s" and "activePlayer ?s \<noteq> MarkX" by simp_all
  moreover have "activePlayer ?s \<in> {MarkX, MarkO}" by (rule activePlayer_mark)
  ultimately have "\<not> xIsNext ?s \<and> activePlayer ?s = MarkO" by blast
  with run r p show ?thesis by blast
qed

text \<open>
  C10. In every reachable state the history is not empty, the step pointer lies in
  0..history.length-1, and every snapshot of the history has exactly nine cells, each
  of them \<^verbatim>\<open>null\<close>, X or O.
\<close>

theorem reachable_well_formed:
  "reachable s \<Longrightarrow>
     history s \<noteq> [] \<and> stepNumber s < length (history s)
     \<and> (\<forall>e \<in> set (history s).
           length (squares e) = 9 \<and> set (squares e) \<subseteq> {Null, MarkX, MarkO})"
  using reachable_state_ok [of s] by (simp add: state_ok_def board_ok_def)

text \<open>After the clicks 0, 1, 2 and a jump to step 1: four boards, pointer at 1.\<close>

theorem reachable_well_formed_witness:
  "\<exists>s. Game_clicks Game_init [0, 1, 2] = Inr s \<and> reachable (jumpTo s 1)
     \<and> length (history (jumpTo s 1)) = 4
     \<and> stepNumber (jumpTo s 1) < length (history (jumpTo s 1))
     \<and> (\<forall>e \<in> set (history (jumpTo s 1)).
           length (squares e) = 9 \<and> set (squares e) \<subseteq> {Null, MarkX, MarkO})"
proof -
  let ?s = "\<lparr>history =
        [\<lparr>squares = [Null, Null, Null, Null, Null, Null, Null, Null, Null]\<rparr>,
         \<lparr>squares = [MarkX, Null, Null, Null, Null, Null, Null, Null, Null]\<rparr>,
         \<lparr>squares = [MarkX, MarkO, Null, Null, Null, Null, Null, Null, Null]\<rparr>,
         \<lparr>squares = [MarkX, MarkO, MarkX, Null, Null, Null, Null, Null, Null]\<rparr>],
        stepNumber = 3, xIsNext = False\<rparr>"
  have run: "Game_clicks Game_init [0, 1, 2] = Inr ?s" by code_simp
  have "reachable ?s"
    using reach_init _ run by (rule reachable_clicks) simp
  moreover have "1 < length (history ?s)" by simp
  ultimately have r: "reachable (jumpTo ?s 1)" by (rule reach_jump)
  have l: "length (history (jumpTo ?s 1)) = 4" by (simp add: jumpTo_def)
  from reachable_well_formed [OF r] run r l show ?thesis by blast
qed

lemma occupied_update:
  "i < length sq \<Longrightarrow> sq ! i = Null \<Longrightarrow> v \<noteq> Null \<Longrightarrow>
   occupied (sq[i := v]) = Suc (occupied sq)"
proof (induction sq arbitrary: i)
  case Nil
  thus ?case by simp
next
  case (Cons c sq)
  show ?case
  proof (cases i)
    case 0
    with Cons.prems show ?thesis by (simp add: occupied_def)
  next
    case (Suc i')
    with Cons.prems have "occupied (sq[i' := v]) = Suc (occupied sq)"
      by (intro Cons.IH) simp_all
    with Suc show ?thesis by (simp add: occupied_def)
  qed
qed

lemma occupied_empty: "occupied (replicate n Null) = 0"
  by (simp add: occupied_def)

lemma free_cell_is_null:
  assumes "board_ok sq" and "i < 9" and "\<not> truthy (js_get sq i)"
  shows "sq ! i = Null"
proof -
  have "js_get sq i = sq ! i" using assms(1,2) by (simp add: board_ok_def js_get_def)
  with assms(3) have "\<not> truthy (sq ! i)" by simp
  thus ?thesis using board_ok_truthy [OF assms(1,2)] by simp
qed

lemma occupied_move:
  assumes "board_ok sq" and "i < 9" and "\<not> truthy (js_get sq i)"
  shows "occupied (js_set sq i (activePlayer s)) = Suc (occupied sq)"
proof -
  have len: "length sq = 9" using assms(1) by (simp add: board_ok_def)
  have "activePlayer s \<noteq> Null" by (simp add: activePlayer_def)
  with free_cell_is_null [OF assms] len assms(2)
  have "occupied (sq[i := activePlayer s]) = Suc (occupied sq)"
    by (intro occupied_update) simp_all
  thus ?thesis using len assms(2) by (simp add: js_set_def)
qed

lemma count_ok_init: "count_ok Game_init"
  by (simp add: count_ok_def Game_init_def occupied_empty)

lemma count_ok_accepted:
  assumes "state_ok s" and "count_ok s" and "i < 9"
    and "\<not> truthy (js_get (squares (history s ! stepNumber s)) i)"
  shows "count_ok (accepted s i)"
proof -
  let ?p = "stepNumber s" and ?h = "history s"
  let ?new = "\<lparr>squares = js_set (squares (?h ! ?p)) i (activePlayer s)\<rparr>"
  let ?h' = "take (?p + 1) ?h @ [?new]"
  have p: "?p < length ?h" using assms(1) by (simp add: state_ok_def)
  have h': "history (accepted s i) = ?h'" by (simp add: accepted_def)
  have len: "length ?h' = ?p + 2" using p by simp
  have old: "?h' ! k = ?h ! k" if "k \<le> ?p" for k
    using that p by (simp add: nth_append)
  have new: "?h' ! (?p + 1) = ?new" using p by (simp add: nth_append)
  have "?h ! ?p \<in> set ?h" using p by simp
  hence ok: "board_ok (squares (?h ! ?p))" using assms(1) by (simp add: state_ok_def)
  have cnt: "occupied (squares ?new) = Suc ?p"
    using occupied_move [OF ok assms(3,4)] assms(2) p by (simp add: count_ok_def)
  have first: "squares (?h' ! 0) = replicate 9 Null"
    using old [of 0] assms(2) by (simp add: count_ok_def)
  have each: "occupied (squares (?h' ! k)) = k" if k: "k < length ?h'" for k
  proof (cases "k \<le> ?p")
    case True
    thus ?thesis using old [OF True] assms(2) p by (simp add: count_ok_def)
  next
    case False
    hence "k = ?p + 1" using k len by simp
    thus ?thesis using new cnt by simp
  qed
  show ?thesis unfolding count_ok_def h' using first each by blast
qed

lemma reachable_count_ok: "reachable s \<Longrightarrow> count_ok s"
proof (induction rule: reachable.induct)
  case reach_init
  show ?case by (rule count_ok_init)
next
  case (reach_click s i s')
  have ok: "state_ok s" using reach_click.hyps(1) by (rule reachable_state_ok)
  hence "stepNumber s < length (history s)" by (simp add: state_ok_def)
  from handleClick_cases [OF this reach_click.hyps(3)] show ?case
    using reach_click.IH count_ok_accepted [OF ok reach_click.IH reach_click.hyps(2)]
    by auto
next
  case (reach_jump s step)
  thus ?case by (simp add: count_ok_def jumpTo_def)
qed

text \<open>
  C6. In every reachable state the snapshot at index 0 of the history is the empty
  board of nine cells, and every snapshot at an index \<open>k \<ge> 1\<close> has exactly one more
  occupied cell than the snapshot at index \<open>k - 1\<close>.
\<close>

theorem each_snapshot_adds_one_mark:
  assumes "reachable s"
  shows "squares (history s ! 0) = replicate 9 Null
    \<and> (\<forall>k. 1 \<le> k \<and> k < length (history s) \<longrightarrow>
          occupied (squares (history s ! k))
            = occupied (squares (history s ! (k - 1))) + 1)"
proof -
  have c: "count_ok s" using assms by (rule reachable_count_ok)
  hence first: "squares (history s ! 0) = replicate 9 Null" by (simp add: count_ok_def)
  have each: "\<And>k. k < length (history s) \<Longrightarrow> occupied (squares (history s ! k)) = k"
    using c by (simp add: count_ok_def)
  have "occupied (squares (history s ! k)) = occupied (squares (history s ! (k - 1))) + 1"
    if k: "1 \<le> k \<and> k < length (history s)" for k
  proof -
    from k have k1: "1 \<le> k" and k2: "k < length (history s)" by auto
    have "k - 1 < length (history s)" using k2 by arith
    hence "occupied (squares (history s ! (k - 1))) = k - 1" by (rule each)
    moreover have "occupied (squares (history s ! k)) = k" using k2 by (rule each)
    ultimately show ?thesis using k1 by arith
  qed
  with first show ?thesis by blast
qed

text \<open>After the clicks 0, 1, 2: snapshot 0 is empty and snapshot 2 has one more mark
  than snapshot 1.\<close>

theorem each_snapshot_adds_one_mark_witness:
  "\<exists>s. Game_clicks Game_init [0, 1, 2] = Inr s \<and> reachable s
     \<and> squares (history s ! 0) = replicate 9 Null
     \<and> occupied (squares (history s ! 2)) = occupied (squares (history s ! 1)) + 1"
proof -
  let ?s = "\<lparr>history =
        [\<lparr>squares = [Null, Null, Null, Null, Null, Null, Null, Null, Null]\<rparr>,
         \<lparr>squares = [MarkX, Null, Null, Null, Null, Null, Null, Null, Null]\<rparr>,
         \<lparr>squares = [MarkX, MarkO, Null, Null, Null, Null, Null, Null, Null]\<rparr>,
         \<lparr>squares = [MarkX, MarkO, MarkX, Null, Null, Null, Null, Null, Null]\<rparr>],
        stepNumber = 3, xIsNext = False\<rparr>"
  have run: "Game_clicks Game_init [0, 1, 2] = Inr ?s" by code_simp
  have r: "reachable ?s"
    using reach_init _ run by (rule reachable_clicks) simp
  from each_snapshot_adds_one_mark [OF r]
  have first: "squares (history ?s ! 0) = replicate 9 Null"
    and each: "\<forall>k. 1 \<le> k \<and> k < length (history ?s) \<longrightarrow>
          occupied (squares (history ?s ! k))
            = occupied (squares (history ?s ! (k - 1))) + 1"
    by blast+
  have "(1::nat) \<le> 2 \<and> 2 < length (history ?s)" by simp
  with each have "occupied (squares (history ?s ! 2))
            = occupied (squares (history ?s ! (2 - 1))) + 1" by blast
  moreover have "(2::nat) - 1 = 1" by simp
  ultimately have "occupied (squares (history ?s ! 2))
            = occupied (squares (history ?s ! 1)) + 1" by (simp only:)
  with run r first show ?thesis by blast
qed

section \<open>Jumping back and playing on\<close>

lemma forget_init: "forget Heap_init = Game_init"
  by (simp add: forget_def Heap_init_def Game_init_def)

lemma forget_jumpTo: "forget (Heap_jumpTo t step) = jumpTo (forget t) step"
  by (simp add: forget_def Heap_jumpTo_def jumpTo_def)

lemma forget_handleClick:
  "map_sum id forget (Heap_handleClick t i) = Game_handleClick (forget t) i"
proof -
  let ?hist = "take (heap_stepNumber t + 1) (heap_history t)"
  have tk: "take (stepNumber (forget t) + 1) (history (forget t)) = map snd ?hist"
    by (simp add: forget_def take_map)
  show ?thesis
  proof (cases "?hist = []")
    case True
    thus ?thesis
      using tk by (simp add: Heap_handleClick_def Game_handleClick_def Let_def)
  next
    case False
    hence "length ?hist - 1 < length ?hist" by (cases ?hist) simp_all
    hence cur: "map snd ?hist ! (length (map snd ?hist) - 1) = snd (?hist ! (length ?hist - 1))"
      by simp
    have ne: "map snd ?hist \<noteq> []" using False by simp
    show ?thesis
      unfolding Heap_handleClick_def Game_handleClick_def Let_def tk
      using False ne cur
      by (simp add: forget_def activePlayer_def)
  qed
qed

lemma Heap_handleClick_addrs:
  assumes "Heap_handleClick t i = Inr t'"
  shows "t' = t
    \<or> (addrs t' = take (heap_stepNumber t + 1) (addrs t) @ [heap_next t]
       \<and> heap_next t' = heap_next t + 1)"
  using assms
  by (auto simp: Heap_handleClick_def Let_def addrs_def take_map split: if_splits)

lemma heap_ok_init: "heap_ok Heap_init"
  by (simp add: heap_ok_def addrs_def Heap_init_def)

lemma heap_ok_click:
  assumes "heap_ok t" and "Heap_handleClick t i = Inr t'"
  shows "heap_ok t'"
proof -
  from Heap_handleClick_addrs [OF assms(2)] show ?thesis
  proof
    assume "t' = t"
    thus ?thesis using assms(1) by simp
  next
    let ?pre = "take (heap_stepNumber t + 1) (addrs t)"
    assume a: "addrs t' = ?pre @ [heap_next t] \<and> heap_next t' = heap_next t + 1"
    have d: "distinct ?pre" using assms(1) by (simp add: heap_ok_def)
    have b: "\<forall>a \<in> set ?pre. a < heap_next t"
      using assms(1) by (meson heap_ok_def in_set_takeD)
    hence "heap_next t \<notin> set ?pre" by auto
    with d b a show ?thesis by (auto simp: heap_ok_def)
  qed
qed

lemma heap_ok_jump: "heap_ok t \<Longrightarrow> heap_ok (Heap_jumpTo t step)"
  by (simp add: heap_ok_def addrs_def Heap_jumpTo_def)

lemma heap_reachable_ok: "heap_reachable t \<Longrightarrow> heap_ok t"
  by (induction rule: heap_reachable.induct)
     (auto intro: heap_ok_init heap_ok_click heap_ok_jump)

lemma heap_reachable_forget: "heap_reachable t \<Longrightarrow> reachable (forget t)"
proof (induction rule: heap_reachable.induct)
  case heap_init
  show ?case by (simp add: forget_init reach_init)
next
  case (heap_click t i t')
  have "Game_handleClick (forget t) i = Inr (forget t')"
    using forget_handleClick [of t i] heap_click.hyps(3) by simp
  with heap_click.IH heap_click.hyps(2) show ?case by (rule reach_click)
next
  case (heap_jump t step)
  have "step < length (history (forget t))" using heap_jump.hyps(2) by (simp add: forget_def)
  with heap_jump.IH have "reachable (jumpTo (forget t) step)" by (rule reach_jump)
  thus ?case by (simp add: forget_jumpTo)
qed

text \<open>Every reachable state of the first embedding is a reachable state of this one
  with the addresses dropped.\<close>

lemma reachable_has_heap_state: "reachable s \<Longrightarrow> \<exists>t. heap_reachable t \<and> forget t = s"
proof (induction rule: reachable.induct)
  case reach_init
  show ?case using heap_init forget_init by blast
next
  case (reach_click s i s')
  then obtain t where t: "heap_reachable t" and f: "forget t = s" by blast
  have "map_sum id forget (Heap_handleClick t i) = Inr s'"
    using forget_handleClick [of t i] reach_click.hyps(3) by (simp add: f)
  then obtain t' where t': "Heap_handleClick t i = Inr t'" and f': "forget t' = s'"
    by (cases "Heap_handleClick t i") auto
  from t reach_click.hyps(2) t' have "heap_reachable t'" by (rule heap_click)
  with f' show ?case by blast
next
  case (reach_jump s step)
  then obtain t where t: "heap_reachable t" and f: "forget t = s" by blast
  have "step < length (heap_history t)"
    using reach_jump.hyps(2) f by (auto simp: forget_def)
  with t have "heap_reachable (Heap_jumpTo t step)" by (rule heap_jump)
  moreover have "forget (Heap_jumpTo t step) = jumpTo s step" by (simp add: forget_jumpTo f)
  ultimately show ?case by blast
qed

lemma Heap_handleClick_cases:
  assumes "heap_stepNumber t < length (heap_history t)" and "Heap_handleClick t i = Inr t'"
  shows "t' = t
    \<or> t' = t\<lparr>heap_history := take (heap_stepNumber t + 1) (heap_history t)
                @ [(heap_next t,
                    \<lparr>squares = js_set (squares (snd (heap_history t ! heap_stepNumber t))) i
                                 (if heap_xIsNext t then MarkX else MarkO)\<rparr>)],
              heap_stepNumber := heap_stepNumber t + 1,
              heap_xIsNext := \<not> heap_xIsNext t,
              heap_next := heap_next t + 1\<rparr>"
  using assms take_current [OF assms(1)]
  by (auto simp: Heap_handleClick_def Let_def split: if_splits)

lemma distinct_nth_not_in_take:
  assumes "distinct xs" and "n \<le> j" and "j < length xs"
  shows "xs ! j \<notin> set (take n xs)"
proof -
  have "distinct (take n xs @ drop n xs)" using assms(1) by simp
  hence disj: "set (take n xs) \<inter> set (drop n xs) = {}" by (simp only: distinct_append)
  have "drop n xs ! (j - n) = xs ! j" using assms(2,3) by simp
  moreover have "j - n < length (drop n xs)" using assms(2,3) by simp
  ultimately have "xs ! j \<in> set (drop n xs)" by (metis nth_mem)
  with disj show ?thesis by blast
qed

lemma heap_reachable_clicks:
  "heap_reachable t \<Longrightarrow> \<forall>i \<in> set clicks. i < 9 \<Longrightarrow> Heap_clicks t clicks = Inr t' \<Longrightarrow>
   heap_reachable t'"
proof (induction clicks arbitrary: t)
  case Nil
  thus ?case by simp
next
  case (Cons i clicks)
  from Cons.prems(3) obtain t1
    where t1: "Heap_handleClick t i = Inr t1" and rest: "Heap_clicks t1 clicks = Inr t'"
    by (auto split: sum.splits)
  have "i < 9" using Cons.prems(2) by simp
  with Cons.prems(1) have "heap_reachable t1" using t1 by (rule heap_click)
  thus ?case using Cons.prems(2) rest by (intro Cons.IH) simp_all
qed

text \<open>
  C4. From a reachable state, a jump to step \<open>k\<close> of the history followed by a click
  that is accepted (the state changes) gives a history of \<open>k + 2\<close> elements: the
  first \<open>k + 1\<close> old ones, and one new object that holds snapshot \<open>k\<close> with the mark
  of the player to move at step \<open>k\<close>. None of the objects that were at an index
  greater than \<open>k\<close> before the jump is in the new history: the address of none of
  them occurs there.
\<close>

theorem jump_then_click_discards_future:
  assumes "heap_reachable t" and "k < length (heap_history t)" and "i < 9"
    and "Heap_handleClick (Heap_jumpTo t k) i = Inr t'" and "t' \<noteq> Heap_jumpTo t k"
  shows "length (heap_history t') = k + 2
    \<and> heap_history t' = take (k + 1) (heap_history t)
         @ [(heap_next t,
             \<lparr>squares = (squares (snd (heap_history t ! k)))
                           [i := (if even k then MarkX else MarkO)]\<rparr>)]
    \<and> (\<forall>j. k < j \<and> j < length (heap_history t) \<longrightarrow>
          fst (heap_history t ! j) \<notin> fst ` set (heap_history t')
          \<and> heap_history t ! j \<notin> set (heap_history t'))"
proof -
  let ?h = "heap_history t" and ?j = "Heap_jumpTo t k"
  let ?new = "(heap_next t,
               \<lparr>squares = js_set (squares (snd (?h ! k))) i (if even k then MarkX else MarkO)\<rparr>)"
  have pj: "heap_stepNumber ?j < length (heap_history ?j)"
    using assms(2) by (simp add: Heap_jumpTo_def)
  from Heap_handleClick_cases [OF pj assms(4)] assms(5)
  have hist0: "heap_history t' = take (k + 1) ?h @ [?new]"
    by (auto simp: Heap_jumpTo_def even_iff_mod_2_eq_zero)
  have "reachable (forget t)" using assms(1) by (rule heap_reachable_forget)
  hence ok: "state_ok (forget t)" by (rule reachable_state_ok)
  have "snd (?h ! k) \<in> set (history (forget t))"
    using assms(2) by (simp add: forget_def)
  hence "board_ok (squares (snd (?h ! k)))" using ok by (simp add: state_ok_def)
  hence "length (squares (snd (?h ! k))) = 9" by (simp add: board_ok_def)
  hence u: "js_set (squares (snd (?h ! k))) i v = (squares (snd (?h ! k)))[i := v]" for v
    using assms(3) by (simp add: js_set_def)
  have hist: "heap_history t' = take (k + 1) ?h
         @ [(heap_next t,
             \<lparr>squares = (squares (snd (?h ! k)))[i := (if even k then MarkX else MarkO)]\<rparr>)]"
    unfolding hist0 u ..
  have len: "length (heap_history t') = k + 2" using assms(2) by (simp add: hist)
  have hok: "heap_ok t" using assms(1) by (rule heap_reachable_ok)
  have ads: "fst ` set (heap_history t') = set (take (k + 1) (addrs t)) \<union> {heap_next t}"
    by (auto simp: hist addrs_def take_map)
  have gone: "fst (?h ! j) \<notin> fst ` set (heap_history t')
              \<and> ?h ! j \<notin> set (heap_history t')"
    if j: "k < j \<and> j < length ?h" for j
  proof -
    from j have j1: "k + 1 \<le> j" and j2: "j < length (addrs t)" by (simp_all add: addrs_def)
    have a: "fst (?h ! j) = addrs t ! j" using j by (simp add: addrs_def)
    have "distinct (addrs t)" using hok by (simp add: heap_ok_def)
    hence n1: "addrs t ! j \<notin> set (take (k + 1) (addrs t))"
      using j1 j2 by (rule distinct_nth_not_in_take)
    have "addrs t ! j \<in> set (addrs t)" using j2 by (rule nth_mem)
    hence "addrs t ! j < heap_next t" using hok by (simp add: heap_ok_def)
    hence n2: "addrs t ! j \<noteq> heap_next t" by simp
    from n1 n2 have g: "fst (?h ! j) \<notin> fst ` set (heap_history t')"
      unfolding ads a by simp
    hence "?h ! j \<notin> set (heap_history t')" by (rule contrapos_nn) (rule imageI)
    with g show ?thesis by blast
  qed
  from len hist gone show ?thesis by blast
qed

text \<open>After the clicks 0, 1, 2 the history has four elements, at the addresses 0 to 3.
  Jumping to step 1 and playing square 1 again gives three elements. The third has
  the squares of the old third element, and it is a new object, at address 4: the
  addresses 2 and 3 of the old elements beyond step 1 are not in the new history.\<close>

theorem jump_then_click_discards_future_witness:
  "\<exists>t t'. Heap_clicks Heap_init [0, 1, 2] = Inr t \<and> heap_reachable t
     \<and> length (heap_history t) = 4
     \<and> Heap_handleClick (Heap_jumpTo t 1) 1 = Inr t' \<and> t' \<noteq> Heap_jumpTo t 1
     \<and> length (heap_history t') = 3
     \<and> snd (heap_history t' ! 2) = snd (heap_history t ! 2)
     \<and> fst (heap_history t ! 2) = 2 \<and> fst (heap_history t' ! 2) = 4
     \<and> fst (heap_history t ! 2) \<notin> fst ` set (heap_history t')
     \<and> fst (heap_history t ! 3) \<notin> fst ` set (heap_history t')"
proof -
  let ?t = "\<lparr>heap_history =
        [(0, \<lparr>squares = [Null, Null, Null, Null, Null, Null, Null, Null, Null]\<rparr>),
         (1, \<lparr>squares = [MarkX, Null, Null, Null, Null, Null, Null, Null, Null]\<rparr>),
         (2, \<lparr>squares = [MarkX, MarkO, Null, Null, Null, Null, Null, Null, Null]\<rparr>),
         (3, \<lparr>squares = [MarkX, MarkO, MarkX, Null, Null, Null, Null, Null, Null]\<rparr>)],
        heap_stepNumber = 3, heap_xIsNext = False, heap_next = 4\<rparr>"
  let ?t' = "\<lparr>heap_history =
        [(0, \<lparr>squares = [Null, Null, Null, Null, Null, Null, Null, Null, Null]\<rparr>),
         (1, \<lparr>squares = [MarkX, Null, Null, Null, Null, Null, Null, Null, Null]\<rparr>),
         (4, \<lparr>squares = [MarkX, MarkO, Null, Null, Null, Null, Null, Null, Null]\<rparr>)],
        heap_stepNumber = 2, heap_xIsNext = True, heap_next = 5\<rparr>"
  have run: "Heap_clicks Heap_init [0, 1, 2] = Inr ?t" by code_simp
  have r: "heap_reachable ?t"
    using heap_init _ run by (rule heap_reachable_clicks) simp
  have k: "1 < length (heap_history ?t)" by simp
  have l: "length (heap_history ?t) = 4" by simp
  have i: "(1::nat) < 9" by simp
  have c: "Heap_handleClick (Heap_jumpTo ?t 1) 1 = Inr ?t'" by code_simp
  have n: "?t' \<noteq> Heap_jumpTo ?t 1" by (simp add: Heap_jumpTo_def)
  from jump_then_click_discards_future [OF r k i c n]
  have len: "length (heap_history ?t') = 1 + 2"
    and gone: "\<forall>j. 1 < j \<and> j < length (heap_history ?t) \<longrightarrow>
          fst (heap_history ?t ! j) \<notin> fst ` set (heap_history ?t')
          \<and> heap_history ?t ! j \<notin> set (heap_history ?t')"
    by blast+
  have "(1::nat) < 2 \<and> 2 < length (heap_history ?t)" by simp
  with gone have g2: "fst (heap_history ?t ! 2) \<notin> fst ` set (heap_history ?t')" by blast
  have "(1::nat) < 3 \<and> 3 < length (heap_history ?t)" by simp
  with gone have g3: "fst (heap_history ?t ! 3) \<notin> fst ` set (heap_history ?t')" by blast
  have l': "length (heap_history ?t') = 3" using len by simp
  have same: "snd (heap_history ?t' ! 2) = snd (heap_history ?t ! 2)" by simp
  have a2: "fst (heap_history ?t ! 2) = 2" and a2': "fst (heap_history ?t' ! 2) = 4"
    by simp_all
  from run r l c n l' same a2 a2' g2 g3 show ?thesis by blast
qed

section \<open>The component with history refines the one without\<close>

lemma same_view_init: "same_view Game_init Board_init"
  by (simp add: same_view_def Game_init_def Board_init_def)

lemma same_view_step:
  assumes "same_view g b"
  shows "\<exists>g'. Game_handleClick g i = Inr g' \<and> same_view g' (Board_handleClick b i)"
proof -
  let ?cur = "squares (history g ! stepNumber g)"
  have p: "stepNumber g < length (history g)"
    and last: "stepNumber g + 1 = length (history g)"
    and sq: "?cur = board_squares b" and t: "xIsNext g = board_xIsNext b"
    using assms by (auto simp: same_view_def)
  show ?thesis
  proof (cases "truthy (calculateWinner ?cur) \<or> truthy (js_get ?cur i)")
    case True
    have "Game_handleClick g i = Inr g" using p True by (rule handleClick_reject)
    moreover have "Board_handleClick b i = b"
      using True by (simp add: Board_handleClick_def Let_def sq)
    ultimately show ?thesis using assms by simp
  next
    case False
    hence w: "\<not> truthy (calculateWinner ?cur)" and c: "\<not> truthy (js_get ?cur i)" by auto
    have g': "Game_handleClick g i = Inr (accepted g i)"
      using p w c by (rule handleClick_accept)
    have b': "Board_handleClick b i =
        b\<lparr>board_squares := js_set (board_squares b) i (if board_xIsNext b then MarkX else MarkO),
          board_xIsNext := \<not> board_xIsNext b\<rparr>"
      using False by (simp add: Board_handleClick_def Let_def sq)
    have "same_view (accepted g i) (Board_handleClick b i)"
      using p last sq t
      by (simp add: b' same_view_def accepted_def activePlayer_def nth_append)
    with g' show ?thesis by blast
  qed
qed

lemma same_view_clicks:
  "same_view g b \<Longrightarrow>
   \<exists>g'. Game_clicks g clicks = Inr g' \<and> same_view g' (Board_clicks b clicks)"
proof (induction clicks arbitrary: g b)
  case Nil
  thus ?case by simp
next
  case (Cons i clicks)
  from same_view_step [OF Cons.prems, of i] obtain g1
    where g1: "Game_handleClick g i = Inr g1" and v: "same_view g1 (Board_handleClick b i)"
    by blast
  from Cons.IH [OF v] show ?case by (simp add: g1)
qed

text \<open>
  C9. \<^verbatim>\<open>Game\<close>, the component with history, refines \<^verbatim>\<open>Board\<close>, the one without: after
  the same clicks from their initial states, with no jump in between, \<^verbatim>\<open>Game\<close> has
  thrown no exception, and its snapshot at the step pointer and its turn flag are the
  \<^verbatim>\<open>squares\<close> and \<^verbatim>\<open>xIsNext\<close> of \<^verbatim>\<open>Board\<close>.
\<close>

theorem Game_refines_Board:
  "\<exists>g. Game_clicks Game_init clicks = Inr g
     \<and> stepNumber g < length (history g)
     \<and> squares (history g ! stepNumber g) = board_squares (Board_clicks Board_init clicks)
     \<and> xIsNext g = board_xIsNext (Board_clicks Board_init clicks)"
  using same_view_clicks [OF same_view_init, of clicks] by (auto simp: same_view_def)

text \<open>The clicks 0, 4, 1, 3, 2, 5: both components show X's top row, the last click
  having been refused by both.\<close>

theorem Game_refines_Board_witness:
  "\<exists>g. Game_clicks Game_init [0, 4, 1, 3, 2, 5] = Inr g
     \<and> squares (history g ! stepNumber g)
         = [MarkX, MarkX, MarkX, MarkO, MarkO, Null, Null, Null, Null]
     \<and> board_squares (Board_clicks Board_init [0, 4, 1, 3, 2, 5])
         = [MarkX, MarkX, MarkX, MarkO, MarkO, Null, Null, Null, Null]
     \<and> xIsNext g = board_xIsNext (Board_clicks Board_init [0, 4, 1, 3, 2, 5])"
proof -
  have b: "board_squares (Board_clicks Board_init [0, 4, 1, 3, 2, 5])
         = [MarkX, MarkX, MarkX, MarkO, MarkO, Null, Null, Null, Null]" by code_simp
  from Game_refines_Board [of "[0, 4, 1, 3, 2, 5]"] b show ?thesis by auto
qed

end
